theory Spec2Isabelle
  imports Main
begin

section \<open>Data model of \<open>non_leader_log_manager.cc\<close>\<close>

text \<open>
  The follower-side log manager of raftcpp. The embedding follows
  \<^verbatim>\<open>src/log_manager/non_leader_log_manager.cc\<close> statement by statement.

  \<^item> \<^verbatim>\<open>int64_t\<close> and \<^verbatim>\<open>int32_t\<close> values are HOL integers. The only arithmetic of
    the file is \<^verbatim>\<open>- 1\<close> on a non-negative index and \<^verbatim>\<open>+ 1\<close> / \<^verbatim>\<open>++\<close>; where the
    latter would leave the \<^verbatim>\<open>int64_t\<close> range (signed overflow, undefined behaviour
    in C++) the model returns the failure \<open>SignedOverflow\<close> instead of a state.
  \<^item> \<^verbatim>\<open>RAFTCPP_CHECK\<close> aborts the process: the failure \<open>CheckFailed\<close>.
  \<^item> \<^verbatim>\<open>std::unordered_map<int64_t, LogEntry>\<close> is a map \<open>int \<rightharpoonup> LogEntry\<close>.
  \<^item> The collaborators are visible through what the manager does to them:
    the payloads handed to \<^verbatim>\<open>fsm_->OnApply\<close>, the asynchronous calls issued on the
    leader's rpc client, the running state of the timer \<^verbatim>\<open>TIMER_PULL_LOGS\<close>, and
    whether \<^verbatim>\<open>mutex_\<close> is currently locked.
  \<^item> \<^verbatim>\<open>RAFTCPP_LOG\<close> lines only print; they are left out.
  \<^item> A member such as \<^verbatim>\<open>next_index_\<close> is the record field \<open>next_index_'\<close>: a HOL name
    cannot end in an underscore. Parameters and locals keep their names.
\<close>

datatype TermID = TermID (getTerm: int)

datatype NodeID = NodeID (ToBinary: string)

record LogEntry =
  term_id :: TermID
  log_index :: int
  data :: string

datatype rpc_client = RpcClient nat

datatype rpc_method = REQUEST_PULL_LOGS

text \<open>\<^verbatim>\<open>client->async_call<1>(method, callback, this_node_id_str, next_index)\<close>;
  the completion callback of the source has an empty body.\<close>

datatype async_call = AsyncCall rpc_client rpc_method string int

datatype failure = CheckFailed | SignedOverflow | MutexBusy

definition INT64_MAX :: int where
  "INT64_MAX = 9223372036854775807"

record NonLeaderLogManager =
  this_node_id_' :: NodeID
  is_running_' :: bool
  all_log_entries_' :: "int \<rightharpoonup> LogEntry"
  next_index_' :: int
  committed_log_index_' :: int
  mutex_' :: bool
  fsm_OnApply :: "string list"
  async_calls :: "async_call list"
  timer_PULL_LOGS_running :: bool

section \<open>Construction and lifecycle\<close>

text \<open>
  The constructor (lines 18-31) sets \<^verbatim>\<open>is_running_(false)\<close> and registers the timer
  without starting it. The initial values of \<^verbatim>\<open>next_index_\<close> and
  \<^verbatim>\<open>committed_log_index_\<close> are member initialisers of the header, which is not among
  the sources: they are parameters here.
\<close>

definition new_NonLeaderLogManager :: "NodeID \<Rightarrow> int \<Rightarrow> int \<Rightarrow> NonLeaderLogManager" where
  "new_NonLeaderLogManager this_node_id next_index0 committed_log_index0 =
     \<lparr> this_node_id_' = this_node_id,
       is_running_' = False,
       all_log_entries_' = Map.empty,
       next_index_' = next_index0,
       committed_log_index_' = committed_log_index0,
       mutex_' = False,
       fsm_OnApply = [],
       async_calls = [],
       timer_PULL_LOGS_running = False \<rparr>"

text \<open>
  Modelled from the spec: \<^verbatim>\<open>common::TimerManager\<close> (\<^verbatim>\<open>common/timer.h\<close>) is not among
  the sources. Per the spec's PullScheduler contract, \<^verbatim>\<open>StartTimer\<close> makes the named
  timer running, \<^verbatim>\<open>StopTimer\<close> stops it, and \<^verbatim>\<open>IsTimerRunning\<close> reads that state.
\<close>

definition Run :: "NonLeaderLogManager \<Rightarrow> NonLeaderLogManager" where
  "Run s = s\<lparr>timer_PULL_LOGS_running := True\<rparr>"

definition Stop :: "NonLeaderLogManager \<Rightarrow> NonLeaderLogManager" where
  "Stop s = s\<lparr>timer_PULL_LOGS_running := False\<rparr>"

definition IsRunning :: "NonLeaderLogManager \<Rightarrow> bool" where
  "IsRunning s = timer_PULL_LOGS_running s"

section \<open>\<open>CommitLogs\<close> (lines 84-95)\<close>

text \<open>
  The \<^verbatim>\<open>for\<close> loop of lines 90-94, entered with the loop variable \<open>index\<close>. It reads
  the member \<^verbatim>\<open>committed_log_index_\<close> in its condition on every iteration.
\<close>

function apply_loop :: "int \<Rightarrow> NonLeaderLogManager \<Rightarrow> failure + NonLeaderLogManager" where
  "apply_loop index s =
     (if index \<le> committed_log_index_' s then
        (case all_log_entries_' s index of
           None \<Rightarrow> Inl CheckFailed
         | Some e \<Rightarrow>
             if INT64_MAX \<le> index then Inl SignedOverflow
             else apply_loop (index + 1) (s\<lparr>fsm_OnApply := fsm_OnApply s @ [data e]\<rparr>))
      else Inr s)"
  by pat_completeness auto
termination
  by (relation "measure (\<lambda>(index, s). nat (committed_log_index_' s + 1 - index))") auto

declare apply_loop.simps [simp del]

text \<open>
  Line 88 initialises the local \<^verbatim>\<open>last_committed_log_index\<close> from the parameter
  \<^verbatim>\<open>committed_log_index\<close> (no trailing underscore), not from the member; line 89 then
  stores the parameter into the member.
\<close>

definition CommitLogs :: "NonLeaderLogManager \<Rightarrow> int \<Rightarrow> failure + NonLeaderLogManager" where
  "CommitLogs s committed_log_index =
     (if committed_log_index \<le> committed_log_index_' s then Inr s
      else
        let last_committed_log_index = committed_log_index;
            s1 = s\<lparr>committed_log_index_' := committed_log_index\<rparr>
        in if INT64_MAX \<le> last_committed_log_index then Inl SignedOverflow
           else apply_loop (last_committed_log_index + 1) s1)"

section \<open>\<open>Push\<close> (lines 45-82)\<close>

text \<open>Lines 54-62: the predecessor check.\<close>

definition check_pre_log :: "int \<Rightarrow> LogEntry \<Rightarrow> NonLeaderLogManager \<Rightarrow> NonLeaderLogManager" where
  "check_pre_log pre_log_term log_entry s =
     (let pre_log_index = log_index log_entry - 1 in
      if log_index log_entry > 0 then
        (case all_log_entries_' s pre_log_index of
           None \<Rightarrow> s\<lparr>next_index_' := pre_log_index\<rparr>
         | Some p \<Rightarrow>
             if getTerm (term_id p) \<noteq> pre_log_term then s\<lparr>next_index_' := pre_log_index\<rparr>
             else s)
      else s)"

text \<open>Lines 68-71: the \<^verbatim>\<open>while\<close> loop that erases the entries found at \<open>index\<close>,
  \<open>index + 1\<close>, ... until a lookup misses.\<close>

function erase_loop :: "int \<Rightarrow> (int \<rightharpoonup> LogEntry) \<Rightarrow> failure + (int \<rightharpoonup> LogEntry)" where
  "erase_loop index m =
     (if m index = None then Inr m
      else if INT64_MAX \<le> index then Inl SignedOverflow
      else erase_loop (index + 1) (m(index := None)))"
  by pat_completeness auto
termination
  by (relation "measure (\<lambda>(index, m). nat (INT64_MAX - index))") auto

declare erase_loop.simps [simp del]

text \<open>Lines 64-75: conflict detection and truncation.\<close>

definition truncate_conflict :: "LogEntry \<Rightarrow> NonLeaderLogManager \<Rightarrow> failure + NonLeaderLogManager" where
  "truncate_conflict log_entry s =
     (let req_term = getTerm (term_id log_entry) in
      case all_log_entries_' s (log_index log_entry) of
        None \<Rightarrow> Inr s
      | Some old \<Rightarrow>
          if getTerm (term_id old) \<noteq> req_term then
            (case erase_loop (log_index log_entry) (all_log_entries_' s) of
               Inl f \<Rightarrow> Inl f
             | Inr m \<Rightarrow> Inr (s\<lparr>all_log_entries_' := m, next_index_' := log_index log_entry\<rparr>))
          else Inr s)"

text \<open>Lines 77-80: store the entry, then advance the frontier.\<close>

definition store_and_advance :: "LogEntry \<Rightarrow> NonLeaderLogManager \<Rightarrow> failure + NonLeaderLogManager" where
  "store_and_advance log_entry s =
     (let s1 = s\<lparr>all_log_entries_' := (all_log_entries_' s)(log_index log_entry \<mapsto> log_entry)\<rparr> in
      if log_index log_entry \<ge> next_index_' s1 then
        (if INT64_MAX \<le> log_index log_entry then Inl SignedOverflow
         else Inr (s1\<lparr>next_index_' := log_index log_entry + 1\<rparr>))
      else Inr s1)"

text \<open>The whole of \<^verbatim>\<open>Push\<close>: the check of line 47, the three steps above, and the
  call of \<^verbatim>\<open>CommitLogs\<close> of line 81. Lines 49-52 only log a duplicated index. The
  function takes no lock: \<^verbatim>\<open>mutex_\<close> is neither read nor written.\<close>

definition Push :: "NonLeaderLogManager \<Rightarrow> int \<Rightarrow> int \<Rightarrow> LogEntry \<Rightarrow> failure + NonLeaderLogManager" where
  "Push s committed_log_index pre_log_term log_entry =
     (if \<not> log_index log_entry \<ge> 0 then Inl CheckFailed
      else
        case truncate_conflict log_entry (check_pre_log pre_log_term log_entry s) of
          Inl f \<Rightarrow> Inl f
        | Inr s2 \<Rightarrow>
            (case store_and_advance log_entry s2 of
               Inl f \<Rightarrow> Inl f
             | Inr s3 \<Rightarrow> CommitLogs s3 committed_log_index))"

section \<open>\<open>DoPullLogs\<close> (lines 97-113)\<close>

text \<open>
  \<open>leader_rpc_client\<close> is what \<^verbatim>\<open>get_leader_rpc_client_func_()\<close> returned in this call
  (\<open>None\<close> for \<^verbatim>\<open>nullptr\<close>). The \<^verbatim>\<open>std::lock_guard\<close> of line 98 locks \<^verbatim>\<open>mutex_\<close> on
  entry and unlocks it on both exits; a caller that finds the mutex locked cannot
  proceed (\<open>MutexBusy\<close>). \<^verbatim>\<open>is_leader_func_()\<close> is called for the log line only.
\<close>

definition DoPullLogs :: "rpc_client option \<Rightarrow> NonLeaderLogManager \<Rightarrow> failure + NonLeaderLogManager" where
  "DoPullLogs leader_rpc_client s =
     (if mutex_' s then Inl MutexBusy
      else
        let s1 = s\<lparr>mutex_' := True\<rparr> in
        case leader_rpc_client of
          None \<Rightarrow> Inr (s1\<lparr>is_running_' := False, mutex_' := False\<rparr>)
        | Some client \<Rightarrow>
            Inr (s1\<lparr>async_calls := async_calls s1 @
                       [AsyncCall client REQUEST_PULL_LOGS (ToBinary (this_node_id_' s1)) (next_index_' s1)],
                     mutex_' := False\<rparr>))"

section \<open>Sequences of calls\<close>

datatype call = CallPush int int LogEntry | CallCommitLogs int

fun do_call :: "NonLeaderLogManager \<Rightarrow> call \<Rightarrow> failure + NonLeaderLogManager" where
  "do_call s (CallPush committed_log_index pre_log_term log_entry) =
     Push s committed_log_index pre_log_term log_entry"
| "do_call s (CallCommitLogs committed_log_index) = CommitLogs s committed_log_index"

text \<open>A failed check ends the process, so the calls after it are never made.\<close>

fun run_calls :: "NonLeaderLogManager \<Rightarrow> call list \<Rightarrow> failure + NonLeaderLogManager" where
  "run_calls s [] = Inr s"
| "run_calls s (c # cs) =
     (case do_call s c of Inl f \<Rightarrow> Inl f | Inr s' \<Rightarrow> run_calls s' cs)"

section \<open>The two conditions \<open>Push\<close> tests\<close>

text \<open>The condition of lines 55-58 (the predecessor is absent, or stored with a term
  other than \<open>pre_log_term\<close>) and the condition of line 66 (an entry is stored at the
  pushed index with a term other than the pushed one), as predicates of the state
  in which \<open>Push\<close> is called.\<close>

definition lacks_pre_log :: "int \<Rightarrow> LogEntry \<Rightarrow> NonLeaderLogManager \<Rightarrow> bool" where
  "lacks_pre_log pre_log_term log_entry s =
     (log_index log_entry > 0 \<and>
      (case all_log_entries_' s (log_index log_entry - 1) of
         None \<Rightarrow> True
       | Some p \<Rightarrow> getTerm (term_id p) \<noteq> pre_log_term))"

definition conflicts :: "LogEntry \<Rightarrow> NonLeaderLogManager \<Rightarrow> bool" where
  "conflicts log_entry s =
     (case all_log_entries_' s (log_index log_entry) of
        None \<Rightarrow> False
      | Some old \<Rightarrow> getTerm (term_id old) \<noteq> getTerm (term_id log_entry))"

section \<open>Concrete states for the scenarios\<close>

text \<open>A log entry from its index, term and payload; a manager as constructed, with
  the cursor at 0 and nothing committed (\<open>- 1\<close>); and that manager holding a given
  log, cursor and committed index.\<close>

definition entry :: "int \<Rightarrow> int \<Rightarrow> string \<Rightarrow> LogEntry" where
  "entry i t d = \<lparr>term_id = TermID t, log_index = i, data = d\<rparr>"

definition fresh :: NonLeaderLogManager where
  "fresh = new_NonLeaderLogManager (NodeID ''node-1'') 0 (- 1)"

definition holding :: "(int \<rightharpoonup> LogEntry) \<Rightarrow> int \<Rightarrow> int \<Rightarrow> NonLeaderLogManager" where
  "holding m n c = fresh\<lparr>all_log_entries_' := m, next_index_' := n, committed_log_index_' := c\<rparr>"

section \<open>Facts about \<open>CommitLogs\<close>\<close>

lemma apply_loop_past_end:
  "committed_log_index_' s < index \<Longrightarrow> apply_loop index s = Inr s"
  by (simp add: apply_loop.simps)

lemma CommitLogs_eq:
  "CommitLogs s c =
     (if c \<le> committed_log_index_' s then Inr s
      else if INT64_MAX \<le> c then Inl SignedOverflow
      else Inr (s\<lparr>committed_log_index_' := c\<rparr>))"
  by (simp add: CommitLogs_def Let_def apply_loop_past_end)

section \<open>Facts about the erase loop\<close>

lemma erase_loop_below:
  "erase_loop i m = Inr m' \<Longrightarrow> j < i \<Longrightarrow> m' j = m j"
proof (induction i m rule: erase_loop.induct)
  case (1 index m)
  show ?case
  proof (cases "m index = None")
    case True
    with "1.prems" show ?thesis by (simp add: erase_loop.simps [of index m])
  next
    case False
    with "1.prems" have ov: "\<not> INT64_MAX \<le> index"
      and rec: "erase_loop (index + 1) (m(index := None)) = Inr m'"
      by (simp_all add: erase_loop.simps [of index m] split: if_splits)
    from "1.IH" [OF False ov rec] "1.prems"(2) show ?thesis by simp
  qed
qed

lemma erase_loop_run:
  "erase_loop i m = Inr m' \<Longrightarrow> i \<le> j \<Longrightarrow> \<forall>k. i \<le> k \<and> k \<le> j \<longrightarrow> m k \<noteq> None \<Longrightarrow> m' j = None"
proof (induction i m rule: erase_loop.induct)
  case (1 index m)
  from "1.prems"(2,3) have present: "m index \<noteq> None" by simp
  with "1.prems"(1) have ov: "\<not> INT64_MAX \<le> index"
    and rec: "erase_loop (index + 1) (m(index := None)) = Inr m'"
    by (simp_all add: erase_loop.simps [of index m] split: if_splits)
  show ?case
  proof (cases "j = index")
    case True
    with erase_loop_below [OF rec, of index] show ?thesis by simp
  next
    case False
    with "1.prems"(2) have lt: "index + 1 \<le> j" by simp
    have "\<forall>k. index + 1 \<le> k \<and> k \<le> j \<longrightarrow> (m(index := None)) k \<noteq> None"
      using "1.prems"(3) by simp
    with "1.IH" [OF present ov rec lt] show ?thesis by simp
  qed
qed

lemma erase_loop_beyond:
  "erase_loop i m = Inr m' \<Longrightarrow> i \<le> k \<Longrightarrow> k \<le> j \<Longrightarrow> m k = None \<Longrightarrow> m' j = m j"
proof (induction i m rule: erase_loop.induct)
  case (1 index m)
  show ?case
  proof (cases "m index = None")
    case True
    with "1.prems"(1) show ?thesis by (simp add: erase_loop.simps [of index m])
  next
    case False
    with "1.prems"(1) have ov: "\<not> INT64_MAX \<le> index"
      and rec: "erase_loop (index + 1) (m(index := None)) = Inr m'"
      by (simp_all add: erase_loop.simps [of index m] split: if_splits)
    from False "1.prems"(4) have "k \<noteq> index" by auto
    with "1.prems"(2,3) have "index + 1 \<le> k" "j \<noteq> index" by simp_all
    with "1.IH" [OF False ov rec _ "1.prems"(3)] "1.prems"(4) show ?thesis by simp
  qed
qed

lemma erase_loop_shrinks:
  "erase_loop i m = Inr m' \<Longrightarrow> m' j = None \<or> m' j = m j"
proof -
  assume a: "erase_loop i m = Inr m'"
  show ?thesis
  proof (cases "j < i")
    case True
    with erase_loop_below [OF a] show ?thesis by simp
  next
    case False
    then have ij: "i \<le> j" by simp
    show ?thesis
    proof (cases "\<forall>k. i \<le> k \<and> k \<le> j \<longrightarrow> m k \<noteq> None")
      case True
      with erase_loop_run [OF a ij] show ?thesis by simp
    next
      case False
      then obtain k where "i \<le> k" "k \<le> j" "m k = None" by auto
      with erase_loop_beyond [OF a] show ?thesis by simp
    qed
  qed
qed

lemma erase_loop_returns:
  "\<forall>k. m k \<noteq> None \<longrightarrow> k < INT64_MAX \<Longrightarrow> \<exists>m'. erase_loop i m = Inr m'"
proof (induction i m rule: erase_loop.induct)
  case (1 index m)
  show ?case
  proof (cases "m index = None")
    case True
    then show ?thesis by (simp add: erase_loop.simps [of index m])
  next
    case False
    with "1.prems" have ov: "\<not> INT64_MAX \<le> index" by auto
    have "\<forall>k. (m(index := None)) k \<noteq> None \<longrightarrow> k < INT64_MAX"
      using "1.prems" by simp
    from "1.IH" [OF False ov this] obtain m' where
      "erase_loop (index + 1) (m(index := None)) = Inr m'" ..
    with False ov have "erase_loop index m = Inr m'"
      by (subst erase_loop.simps) auto
    then show ?thesis by blast
  qed
qed

section \<open>Facts about the steps of \<open>Push\<close>\<close>

lemma check_pre_log_eq:
  "check_pre_log t e s =
     (if lacks_pre_log t e s then s\<lparr>next_index_' := log_index e - 1\<rparr> else s)"
  by (simp add: check_pre_log_def lacks_pre_log_def Let_def split: option.splits)

lemma conflicts_check_pre_log [simp]:
  "conflicts e (check_pre_log t e s) = conflicts e s"
  by (simp add: check_pre_log_eq conflicts_def)

lemma truncate_conflict_eq:
  "truncate_conflict e s =
     (if conflicts e s then
        (case erase_loop (log_index e) (all_log_entries_' s) of
           Inl f \<Rightarrow> Inl f
         | Inr m \<Rightarrow> Inr (s\<lparr>all_log_entries_' := m, next_index_' := log_index e\<rparr>))
      else Inr s)"
  by (simp add: truncate_conflict_def conflicts_def Let_def split: option.splits)

lemma Push_Inr_nonneg: "Push s c t e = Inr s' \<Longrightarrow> 0 \<le> log_index e"
  by (simp add: Push_def split: if_splits)

lemma Push_Inr_entries:
  assumes "Push s c t e = Inr s'"
  shows "\<exists>m. (if conflicts e s then erase_loop (log_index e) (all_log_entries_' s) = Inr m
              else m = all_log_entries_' s) \<and>
             all_log_entries_' s' = m(log_index e \<mapsto> e)"
  using assms
  by (auto simp: Push_def check_pre_log_eq truncate_conflict_eq store_and_advance_def
        CommitLogs_eq Let_def conflicts_def split: if_splits sum.splits)

lemma Push_Inr_next_index:
  assumes "Push s c t e = Inr s'"
  shows "next_index_' s' =
           (if lacks_pre_log t e s \<or> conflicts e s \<or> next_index_' s \<le> log_index e
            then log_index e + 1 else next_index_' s)"
  using assms
  by (auto simp: Push_def check_pre_log_eq truncate_conflict_eq store_and_advance_def
        CommitLogs_eq Let_def conflicts_def split: if_splits sum.splits)

lemma Push_Inr_committed:
  assumes "Push s c t e = Inr s'"
  shows "committed_log_index_' s' = max (committed_log_index_' s) c"
  using assms
  by (auto simp: Push_def check_pre_log_eq truncate_conflict_eq store_and_advance_def
        CommitLogs_eq Let_def conflicts_def split: if_splits sum.splits)

lemma Push_Inr_frame:
  assumes "Push s c t e = Inr s'"
  shows "s' = s\<lparr>all_log_entries_' := all_log_entries_' s',
                next_index_' := next_index_' s',
                committed_log_index_' := committed_log_index_' s'\<rparr>"
  using assms
  by (auto simp: Push_def check_pre_log_eq truncate_conflict_eq store_and_advance_def
        CommitLogs_eq Let_def conflicts_def split: if_splits sum.splits)

section \<open>Facts about \<open>Push\<close> and about sequences of calls\<close>

lemmas eval_defs = entry_def fresh_def holding_def new_NonLeaderLogManager_def Push_def check_pre_log_def
  truncate_conflict_def store_and_advance_def CommitLogs_def apply_loop.simps erase_loop.simps
  INT64_MAX_def Let_def lacks_pre_log_def conflicts_def

lemma Push_Inr_lacks_bound:
  "Push s c t e = Inr s' \<Longrightarrow> lacks_pre_log t e s \<Longrightarrow> log_index e < INT64_MAX"
  by (auto simp: Push_def check_pre_log_eq truncate_conflict_eq store_and_advance_def
        Let_def split: if_splits sum.splits)

lemma Push_Inr_stored:
  "Push s c t e = Inr s' \<Longrightarrow> all_log_entries_' s' (log_index e) = Some e"
  using Push_Inr_entries [of s c t e s'] by auto

lemma Push_Inr_below:
  assumes "Push s c t e = Inr s'" and "j < log_index e"
  shows "all_log_entries_' s' j = all_log_entries_' s j"
proof -
  from Push_Inr_entries [OF assms(1)] obtain m where
    m: "if conflicts e s then erase_loop (log_index e) (all_log_entries_' s) = Inr m
        else m = all_log_entries_' s"
    and s': "all_log_entries_' s' = m(log_index e \<mapsto> e)" by blast
  from m assms(2) have "m j = all_log_entries_' s j"
    by (auto dest: erase_loop_below split: if_splits)
  with s' assms(2) show ?thesis by simp
qed

lemma Push_Inr_elsewhere:
  assumes "Push s c t e = Inr s'" and "j \<noteq> log_index e"
  shows "all_log_entries_' s' j = all_log_entries_' s j \<or>
         log_index e < j \<and> all_log_entries_' s' j = None"
proof (cases "j < log_index e")
  case True
  with Push_Inr_below [OF assms(1)] show ?thesis by simp
next
  case False
  with assms(2) have lt: "log_index e < j" by simp
  from Push_Inr_entries [OF assms(1)] obtain m where
    m: "if conflicts e s then erase_loop (log_index e) (all_log_entries_' s) = Inr m
        else m = all_log_entries_' s"
    and s': "all_log_entries_' s' = m(log_index e \<mapsto> e)" by blast
  from m have "m j = None \<or> m j = all_log_entries_' s j"
    by (auto dest: erase_loop_shrinks split: if_splits)
  with s' assms(2) lt show ?thesis by auto
qed

lemma lacks_pre_log_cong:
  "all_log_entries_' s1 (log_index e - 1) = all_log_entries_' s (log_index e - 1) \<Longrightarrow>
   lacks_pre_log t e s1 = lacks_pre_log t e s"
  by (simp add: lacks_pre_log_def)

lemma CommitLogs_fsm:
  "CommitLogs s c = Inr s' \<Longrightarrow> fsm_OnApply s' = fsm_OnApply s"
  by (auto simp: CommitLogs_eq split: if_splits)

lemma CommitLogs_no_check: "CommitLogs s c \<noteq> Inl CheckFailed"
  by (simp add: CommitLogs_eq)

lemma CommitLogs_committed:
  "CommitLogs s c = Inr s' \<Longrightarrow> committed_log_index_' s' = max (committed_log_index_' s) c"
  by (auto simp: CommitLogs_eq split: if_splits)

lemma Push_fsm:
  "Push s c t e = Inr s' \<Longrightarrow> fsm_OnApply s' = fsm_OnApply s"
  by (subst Push_Inr_frame, assumption) simp

lemma Push_mutex:
  "Push s c t e = Inr s' \<Longrightarrow> mutex_' s' = mutex_' s"
  by (subst Push_Inr_frame, assumption) simp

lemma Push_returns:
  assumes "0 \<le> log_index e" and "log_index e < INT64_MAX" and "c < INT64_MAX"
    and "\<forall>k. all_log_entries_' s k \<noteq> None \<longrightarrow> k < INT64_MAX"
  shows "\<exists>s'. Push s c t e = Inr s'"
proof -
  from erase_loop_returns [OF assms(4)] obtain m where
    "erase_loop (log_index e) (all_log_entries_' s) = Inr m" by blast
  with assms(1-3) show ?thesis
    by (simp add: Push_def check_pre_log_eq truncate_conflict_eq store_and_advance_def
          CommitLogs_eq Let_def)
qed

lemma do_call_committed:
  "do_call s x = Inr s' \<Longrightarrow> committed_log_index_' s \<le> committed_log_index_' s'"
  by (cases x) (auto dest: Push_Inr_committed CommitLogs_committed)

lemma run_calls_committed:
  "run_calls s cs = Inr s' \<Longrightarrow> committed_log_index_' s \<le> committed_log_index_' s'"
proof (induction cs arbitrary: s)
  case Nil
  then show ?case by simp
next
  case (Cons x cs)
  then obtain s1 where step: "do_call s x = Inr s1" and rest: "run_calls s1 cs = Inr s'"
    by (auto split: sum.splits)
  from do_call_committed [OF step] Cons.IH [OF rest] show ?case by simp
qed

lemma run_calls_fsm:
  "run_calls s cs = Inr s' \<Longrightarrow> fsm_OnApply s' = fsm_OnApply s"
proof (induction cs arbitrary: s)
  case Nil
  then show ?case by simp
next
  case (Cons x cs)
  then obtain s1 where step: "do_call s x = Inr s1" and rest: "run_calls s1 cs = Inr s'"
    by (auto split: sum.splits)
  from step have "fsm_OnApply s1 = fsm_OnApply s"
    by (cases x) (auto dest: Push_fsm CommitLogs_fsm)
  with Cons.IH [OF rest] show ?case by simp
qed

section \<open>The claims\<close>

text \<open>
  C9: every call \<open>Push(committed_index, prev_term, entry)\<close> with \<open>entry.log_index \<ge> 0\<close>
  that returns normally leaves \<open>next_index\<close> at least \<open>entry.log_index + 1\<close>. The final
  frontier-advance step overrides what the gap-detection step (\<open>log_index - 1\<close>) or the
  conflict-truncation step (\<open>log_index\<close>) assigned earlier in the same call: whenever
  one of them ran, \<open>next_index\<close> is exactly \<open>entry.log_index + 1\<close> on return.
\<close>

theorem Push_next_index_beyond_entry:
  assumes "0 \<le> log_index log_entry"
    and "Push s committed_log_index pre_log_term log_entry = Inr s'"
  shows "log_index log_entry + 1 \<le> next_index_' s' \<and>
         (if lacks_pre_log pre_log_term log_entry s \<or> conflicts log_entry s
          then next_index_' s' = log_index log_entry + 1
          else next_index_' s' = max (next_index_' s) (log_index log_entry + 1))"
  using Push_Inr_next_index [OF assms(2)] by auto

theorem Push_next_index_beyond_entry_witness:
  "0 \<le> log_index (entry 2 1 ''z'') \<and>
   Push (holding [0 \<mapsto> entry 0 1 ''x''] 1 0) 0 1 (entry 2 1 ''z'') =
     Inr (holding [0 \<mapsto> entry 0 1 ''x'', 2 \<mapsto> entry 2 1 ''z''] 3 0) \<and>
   lacks_pre_log 1 (entry 2 1 ''z'') (holding [0 \<mapsto> entry 0 1 ''x''] 1 0) \<and>
   log_index (entry 2 1 ''z'') + 1 \<le>
     next_index_' (holding [0 \<mapsto> entry 0 1 ''x'', 2 \<mapsto> entry 2 1 ''z''] 3 0) \<and>
   next_index_' (holding [0 \<mapsto> entry 0 1 ''x'', 2 \<mapsto> entry 2 1 ''z''] 3 0) = 3"
proof -
  have nonneg: "0 \<le> log_index (entry 2 1 ''z'')"
    by (simp add: entry_def)
  have run: "Push (holding [0 \<mapsto> entry 0 1 ''x''] 1 0) 0 1 (entry 2 1 ''z'') =
      Inr (holding [0 \<mapsto> entry 0 1 ''x'', 2 \<mapsto> entry 2 1 ''z''] 3 0)"
    by (simp add: eval_defs)
  have lacks: "lacks_pre_log 1 (entry 2 1 ''z'') (holding [0 \<mapsto> entry 0 1 ''x''] 1 0)"
    by (simp add: eval_defs)
  from Push_next_index_beyond_entry [OF nonneg run] nonneg run lacks show ?thesis
    by (simp add: entry_def)
qed

text \<open>
  C10: a call of \<open>Push\<close> that returns leaves every stored entry at an index strictly
  below \<open>entry.log_index\<close> as it was. The pushed entry is stored at
  \<open>entry.log_index\<close>, and any other index whose content changed lies above
  \<open>entry.log_index\<close> and is now empty: truncation deletes only at or above the pushed
  index, and the pushed index is the only one written.
\<close>

theorem Push_frame:
  assumes "Push s committed_log_index pre_log_term log_entry = Inr s'"
  shows "(\<forall>j. j < log_index log_entry \<longrightarrow> all_log_entries_' s' j = all_log_entries_' s j) \<and>
         all_log_entries_' s' (log_index log_entry) = Some log_entry \<and>
         (\<forall>j. j \<noteq> log_index log_entry \<and> all_log_entries_' s' j \<noteq> all_log_entries_' s j \<longrightarrow>
              log_index log_entry < j \<and> all_log_entries_' s' j = None)"
proof (intro conjI allI impI)
  fix j assume "j < log_index log_entry"
  with Push_Inr_below [OF assms] show "all_log_entries_' s' j = all_log_entries_' s j" .
next
  show "all_log_entries_' s' (log_index log_entry) = Some log_entry"
    by (rule Push_Inr_stored [OF assms])
next
  fix j assume "j \<noteq> log_index log_entry \<and> all_log_entries_' s' j \<noteq> all_log_entries_' s j"
  with Push_Inr_elsewhere [OF assms, of j] show "log_index log_entry < j" by blast
next
  fix j assume "j \<noteq> log_index log_entry \<and> all_log_entries_' s' j \<noteq> all_log_entries_' s j"
  with Push_Inr_elsewhere [OF assms, of j] show "all_log_entries_' s' j = None" by blast
qed

theorem Push_frame_witness:
  "Push (holding [0 \<mapsto> entry 0 1 ''x'', 1 \<mapsto> entry 1 1 ''y'', 2 \<mapsto> entry 2 1 ''z''] 3 0)
     0 1 (entry 1 2 ''w'') =
     Inr (holding [0 \<mapsto> entry 0 1 ''x'', 1 \<mapsto> entry 1 2 ''w''] 2 0) \<and>
   all_log_entries_' (holding [0 \<mapsto> entry 0 1 ''x'', 1 \<mapsto> entry 1 2 ''w''] 2 0) 0 =
     Some (entry 0 1 ''x'') \<and>
   all_log_entries_' (holding [0 \<mapsto> entry 0 1 ''x'', 1 \<mapsto> entry 1 2 ''w''] 2 0) 1 =
     Some (entry 1 2 ''w'') \<and>
   (1::int) < 2 \<and>
   all_log_entries_' (holding [0 \<mapsto> entry 0 1 ''x'', 1 \<mapsto> entry 1 2 ''w''] 2 0) 2 = None"
proof -
  have run: "Push (holding [0 \<mapsto> entry 0 1 ''x'', 1 \<mapsto> entry 1 1 ''y'', 2 \<mapsto> entry 2 1 ''z''] 3 0)
      0 1 (entry 1 2 ''w'') = Inr (holding [0 \<mapsto> entry 0 1 ''x'', 1 \<mapsto> entry 1 2 ''w''] 2 0)"
    by (simp add: eval_defs)
  from Push_frame [OF run] have
    "all_log_entries_' (holding [0 \<mapsto> entry 0 1 ''x'', 1 \<mapsto> entry 1 2 ''w''] 2 0) 0 =
       all_log_entries_' (holding [0 \<mapsto> entry 0 1 ''x'', 1 \<mapsto> entry 1 1 ''y'', 2 \<mapsto> entry 2 1 ''z''] 3 0) 0"
    and "all_log_entries_' (holding [0 \<mapsto> entry 0 1 ''x'', 1 \<mapsto> entry 1 2 ''w''] 2 0) 1 =
       Some (entry 1 2 ''w'')"
    by (simp_all add: entry_def)
  moreover
  have changed: "(2::int) \<noteq> log_index (entry 1 2 ''w'') \<and>
      all_log_entries_' (holding [0 \<mapsto> entry 0 1 ''x'', 1 \<mapsto> entry 1 2 ''w''] 2 0) 2 \<noteq>
      all_log_entries_' (holding [0 \<mapsto> entry 0 1 ''x'', 1 \<mapsto> entry 1 1 ''y'', 2 \<mapsto> entry 2 1 ''z''] 3 0) 2"
    by (simp add: entry_def holding_def)
  with Push_frame [OF run] have
    "all_log_entries_' (holding [0 \<mapsto> entry 0 1 ''x'', 1 \<mapsto> entry 1 2 ''w''] 2 0) 2 = None"
    by blast
  ultimately show ?thesis using run by (simp add: holding_def)
qed

text \<open>
  C3: when \<open>Push\<close> is called with an entry at index \<open>i\<close> and the entry stored at \<open>i\<close>
  has another term, the call returns, and in the state it leaves every entry of the
  contiguous run \<open>i\<close>, \<open>i + 1\<close>, ... (as far as indices are present without a gap) is
  deleted, the pushed entry is stored at \<open>i\<close>, and \<open>next_index\<close> is \<open>i + 1\<close>. Entries
  beyond the first gap after \<open>i\<close> are kept. The call is one within the \<^verbatim>\<open>int64_t\<close>
  range: \<open>i\<close> is not negative, and the committed index passed and the stored indices
  are below \<open>INT64_MAX\<close>.
\<close>

theorem Push_conflict_truncation:
  assumes "conflicts log_entry s"
    and "0 \<le> log_index log_entry"
    and "committed_log_index < INT64_MAX"
    and "\<forall>k. all_log_entries_' s k \<noteq> None \<longrightarrow> k < INT64_MAX"
  shows "\<exists>s'. Push s committed_log_index pre_log_term log_entry = Inr s' \<and>
         (\<forall>j. log_index log_entry < j \<and>
              (\<forall>k. log_index log_entry \<le> k \<and> k \<le> j \<longrightarrow> all_log_entries_' s k \<noteq> None) \<longrightarrow>
              all_log_entries_' s' j = None) \<and>
         (\<forall>j k. log_index log_entry \<le> k \<and> k \<le> j \<and> all_log_entries_' s k = None \<longrightarrow>
              all_log_entries_' s' j = all_log_entries_' s j) \<and>
         all_log_entries_' s' (log_index log_entry) = Some log_entry \<and>
         next_index_' s' = log_index log_entry + 1"
proof -
  have present: "all_log_entries_' s (log_index log_entry) \<noteq> None"
    using assms(1) by (auto simp: conflicts_def split: option.splits)
  with assms(4) have bound: "log_index log_entry < INT64_MAX" by blast
  from Push_returns [OF assms(2) bound assms(3,4)] obtain s' where
    ret: "Push s committed_log_index pre_log_term log_entry = Inr s'" by blast
  from Push_Inr_entries [OF ret] assms(1) obtain m where
    m: "erase_loop (log_index log_entry) (all_log_entries_' s) = Inr m"
    and s': "all_log_entries_' s' = m(log_index log_entry \<mapsto> log_entry)" by auto
  have run: "all_log_entries_' s' j = None"
    if "log_index log_entry < j"
      and "\<forall>k. log_index log_entry \<le> k \<and> k \<le> j \<longrightarrow> all_log_entries_' s k \<noteq> None" for j
    using erase_loop_run [OF m _ that(2)] that(1) s' by simp
  have kept: "all_log_entries_' s' j = all_log_entries_' s j"
    if "log_index log_entry \<le> k" and "k \<le> j" and "all_log_entries_' s k = None" for j k
  proof -
    from that present have "j \<noteq> log_index log_entry" by auto
    with erase_loop_beyond [OF m that] s' show ?thesis by simp
  qed
  have stored: "all_log_entries_' s' (log_index log_entry) = Some log_entry"
    by (rule Push_Inr_stored [OF ret])
  have cursor: "next_index_' s' = log_index log_entry + 1"
    using Push_Inr_next_index [OF ret] assms(1) by simp
  from ret run kept stored cursor show ?thesis by blast
qed

theorem Push_conflict_truncation_witness:
  "conflicts (entry 1 2 ''w'')
     (holding [0 \<mapsto> entry 0 1 ''x'', 1 \<mapsto> entry 1 1 ''y'', 2 \<mapsto> entry 2 1 ''z'', 4 \<mapsto> entry 4 1 ''v''] 5 0) \<and>
   0 \<le> log_index (entry 1 2 ''w'') \<and>
   (0::int) < INT64_MAX \<and>
   Push (holding [0 \<mapsto> entry 0 1 ''x'', 1 \<mapsto> entry 1 1 ''y'', 2 \<mapsto> entry 2 1 ''z'', 4 \<mapsto> entry 4 1 ''v''] 5 0)
     0 1 (entry 1 2 ''w'') =
     Inr (holding [0 \<mapsto> entry 0 1 ''x'', 4 \<mapsto> entry 4 1 ''v'', 1 \<mapsto> entry 1 2 ''w''] 2 0) \<and>
   all_log_entries_' (holding [0 \<mapsto> entry 0 1 ''x'', 4 \<mapsto> entry 4 1 ''v'', 1 \<mapsto> entry 1 2 ''w''] 2 0) 2 = None \<and>
   all_log_entries_' (holding [0 \<mapsto> entry 0 1 ''x'', 4 \<mapsto> entry 4 1 ''v'', 1 \<mapsto> entry 1 2 ''w''] 2 0) 4 =
     Some (entry 4 1 ''v'') \<and>
   all_log_entries_' (holding [0 \<mapsto> entry 0 1 ''x'', 4 \<mapsto> entry 4 1 ''v'', 1 \<mapsto> entry 1 2 ''w''] 2 0) 1 =
     Some (entry 1 2 ''w'') \<and>
   next_index_' (holding [0 \<mapsto> entry 0 1 ''x'', 4 \<mapsto> entry 4 1 ''v'', 1 \<mapsto> entry 1 2 ''w''] 2 0) = 2"
proof -
  let ?s = "holding [0 \<mapsto> entry 0 1 ''x'', 1 \<mapsto> entry 1 1 ''y'', 2 \<mapsto> entry 2 1 ''z'', 4 \<mapsto> entry 4 1 ''v''] 5 0"
  let ?s' = "holding [0 \<mapsto> entry 0 1 ''x'', 4 \<mapsto> entry 4 1 ''v'', 1 \<mapsto> entry 1 2 ''w''] 2 0"
  have conf: "conflicts (entry 1 2 ''w'') ?s"
    by (simp add: eval_defs)
  have nonneg: "0 \<le> log_index (entry 1 2 ''w'')"
    by (simp add: entry_def)
  have small: "(0::int) < INT64_MAX"
    by (simp add: INT64_MAX_def)
  have keys: "\<forall>k. all_log_entries_' ?s k \<noteq> None \<longrightarrow> k < INT64_MAX"
    by (simp add: holding_def INT64_MAX_def)
  from Push_conflict_truncation [OF conf nonneg small keys, of 1] obtain s' where
    ret: "Push ?s 0 1 (entry 1 2 ''w'') = Inr s'"
    and run: "\<forall>j. log_index (entry 1 2 ''w'') < j \<and>
        (\<forall>k. log_index (entry 1 2 ''w'') \<le> k \<and> k \<le> j \<longrightarrow> all_log_entries_' ?s k \<noteq> None) \<longrightarrow>
        all_log_entries_' s' j = None"
    and kept: "\<forall>j k. log_index (entry 1 2 ''w'') \<le> k \<and> k \<le> j \<and> all_log_entries_' ?s k = None \<longrightarrow>
        all_log_entries_' s' j = all_log_entries_' ?s j"
    and stored: "all_log_entries_' s' (log_index (entry 1 2 ''w'')) = Some (entry 1 2 ''w'')"
    and cursor: "next_index_' s' = log_index (entry 1 2 ''w'') + 1"
    by blast
  have eval: "Push ?s 0 1 (entry 1 2 ''w'') = Inr ?s'"
    by (simp add: eval_defs fun_upd_twist)
  with ret have same: "s' = ?s'" by simp
  have in_run: "\<forall>k. log_index (entry 1 2 ''w'') \<le> k \<and> k \<le> 2 \<longrightarrow> all_log_entries_' ?s k \<noteq> None"
  proof (intro allI impI)
    fix k :: int assume "log_index (entry 1 2 ''w'') \<le> k \<and> k \<le> 2"
    then have "k = 1 \<or> k = 2" by (auto simp: entry_def)
    then show "all_log_entries_' ?s k \<noteq> None" by (auto simp: holding_def)
  qed
  have gap: "log_index (entry 1 2 ''w'') \<le> 3 \<and> (3::int) \<le> 4 \<and> all_log_entries_' ?s 3 = None"
    by (simp add: entry_def holding_def)
  from run in_run have "all_log_entries_' s' 2 = None"
    by (simp add: entry_def)
  moreover from kept gap have "all_log_entries_' s' 4 = all_log_entries_' ?s 4"
    by blast
  moreover from stored cursor have "all_log_entries_' s' 1 = Some (entry 1 2 ''w'')" "next_index_' s' = 2"
    by (simp_all add: entry_def)
  ultimately show ?thesis using conf nonneg small eval same by (simp add: holding_def)
qed

text \<open>
  C6: if a call of \<open>Push\<close> returns, repeating it at once with the same
  \<open>(committed_index, prev_term, entry)\<close> returns the very state the first call left:
  the same stored entries and the same \<open>next_index\<close> (and every other member).
\<close>

theorem Push_twice:
  assumes "Push s committed_log_index pre_log_term log_entry = Inr s1"
  shows "Push s1 committed_log_index pre_log_term log_entry = Inr s1"
proof -
  let ?i = "log_index log_entry"
  have nonneg: "0 \<le> ?i" by (rule Push_Inr_nonneg [OF assms])
  have stored: "all_log_entries_' s1 ?i = Some log_entry" by (rule Push_Inr_stored [OF assms])
  then have noconf: "\<not> conflicts log_entry s1" by (simp add: conflicts_def)
  have "all_log_entries_' s1 (?i - 1) = all_log_entries_' s (?i - 1)"
    by (rule Push_Inr_below [OF assms]) simp
  then have lacks: "lacks_pre_log pre_log_term log_entry s1 = lacks_pre_log pre_log_term log_entry s"
    by (rule lacks_pre_log_cong)
  have next1: "next_index_' s1 =
      (if lacks_pre_log pre_log_term log_entry s \<or> conflicts log_entry s \<or> next_index_' s \<le> ?i
       then ?i + 1 else next_index_' s)"
    by (rule Push_Inr_next_index [OF assms])
  have committed: "committed_log_index \<le> committed_log_index_' s1"
    using Push_Inr_committed [OF assms] by simp
  have same: "(all_log_entries_' s1)(?i \<mapsto> log_entry) = all_log_entries_' s1"
    using stored by (rule fun_upd_idem)
  show ?thesis
  proof (cases "lacks_pre_log pre_log_term log_entry s")
    case True
    with next1 have n: "next_index_' s1 = ?i + 1" by simp
    from True Push_Inr_lacks_bound [OF assms] have "\<not> INT64_MAX \<le> ?i" by simp
    with True lacks noconf same committed n show ?thesis
      by (simp add: Push_def nonneg check_pre_log_eq truncate_conflict_eq conflicts_def
            store_and_advance_def CommitLogs_eq Let_def)
  next
    case False
    with next1 have "\<not> next_index_' s1 \<le> ?i" by (simp split: if_splits)
    with False lacks noconf same committed show ?thesis
      by (simp add: Push_def nonneg check_pre_log_eq truncate_conflict_eq
            store_and_advance_def CommitLogs_eq Let_def)
  qed
qed

theorem Push_twice_witness:
  "Push (holding [0 \<mapsto> entry 0 1 ''x''] 1 0) 0 1 (entry 2 1 ''z'') =
     Inr (holding [0 \<mapsto> entry 0 1 ''x'', 2 \<mapsto> entry 2 1 ''z''] 3 0) \<and>
   Push (holding [0 \<mapsto> entry 0 1 ''x'', 2 \<mapsto> entry 2 1 ''z''] 3 0) 0 1 (entry 2 1 ''z'') =
     Inr (holding [0 \<mapsto> entry 0 1 ''x'', 2 \<mapsto> entry 2 1 ''z''] 3 0)"
proof -
  have run: "Push (holding [0 \<mapsto> entry 0 1 ''x''] 1 0) 0 1 (entry 2 1 ''z'') =
      Inr (holding [0 \<mapsto> entry 0 1 ''x'', 2 \<mapsto> entry 2 1 ''z''] 3 0)"
    by (simp add: eval_defs)
  from Push_twice [OF run] run show ?thesis by simp
qed

text \<open>
  C4: across any sequence of \<open>Push\<close> and \<open>CommitLogs\<close> calls the committed index never
  decreases, and \<open>CommitLogs(c)\<close> with \<open>c\<close> at most the current committed index returns
  the state it was given: nothing is modified and the applier is not invoked.
\<close>

theorem committed_index_monotone:
  "(run_calls s calls = Inr s' \<longrightarrow> committed_log_index_' s \<le> committed_log_index_' s') \<and>
   (c \<le> committed_log_index_' s \<longrightarrow> CommitLogs s c = Inr s)"
  by (simp add: run_calls_committed CommitLogs_eq)

theorem committed_index_monotone_witness:
  "run_calls fresh [CallPush 0 1 (entry 0 1 ''x''), CallPush 1 1 (entry 1 1 ''y''), CallCommitLogs 0] =
     Inr (holding [0 \<mapsto> entry 0 1 ''x'', 1 \<mapsto> entry 1 1 ''y''] 2 1) \<and>
   committed_log_index_' fresh \<le>
     committed_log_index_' (holding [0 \<mapsto> entry 0 1 ''x'', 1 \<mapsto> entry 1 1 ''y''] 2 1) \<and>
   (0::int) \<le> committed_log_index_' (holding [0 \<mapsto> entry 0 1 ''x'', 1 \<mapsto> entry 1 1 ''y''] 2 1) \<and>
   CommitLogs (holding [0 \<mapsto> entry 0 1 ''x'', 1 \<mapsto> entry 1 1 ''y''] 2 1) 0 =
     Inr (holding [0 \<mapsto> entry 0 1 ''x'', 1 \<mapsto> entry 1 1 ''y''] 2 1)"
proof -
  let ?s' = "holding [0 \<mapsto> entry 0 1 ''x'', 1 \<mapsto> entry 1 1 ''y''] 2 1"
  have run: "run_calls fresh [CallPush 0 1 (entry 0 1 ''x''), CallPush 1 1 (entry 1 1 ''y''),
      CallCommitLogs 0] = Inr ?s'"
    by (simp add: eval_defs)
  have le: "(0::int) \<le> committed_log_index_' ?s'"
    by (simp add: holding_def)
  have grows: "committed_log_index_' fresh \<le> committed_log_index_' ?s'"
    using committed_index_monotone [of fresh _ ?s' 0] run by blast
  have noop: "CommitLogs ?s' 0 = Inr ?s'"
    using committed_index_monotone [of ?s' "[]" ?s' 0] le by blast
  from run grows le noop show ?thesis by blast
qed

text \<open>
  C7: when \<open>DoPullLogs\<close> runs (it obtained the mutex) and the leader-link resolver
  returns no handle, the only change is that the actively-polling flag is cleared: no
  pull request is sent, the timer is left as it was, and the log store, \<open>next_index\<close>
  and the committed index are unchanged. When a handle is returned, the only change is
  that exactly one asynchronous pull request, carrying this node's identity and the
  current \<open>next_index\<close>, is issued on that handle.
\<close>

theorem DoPullLogs_effect:
  assumes "\<not> mutex_' s"
  shows "DoPullLogs None s = Inr (s\<lparr>is_running_' := False\<rparr>) \<and>
         DoPullLogs (Some client) s =
           Inr (s\<lparr>async_calls := async_calls s @
                    [AsyncCall client REQUEST_PULL_LOGS (ToBinary (this_node_id_' s)) (next_index_' s)]\<rparr>)"
  using assms by (simp add: DoPullLogs_def Let_def)

theorem DoPullLogs_effect_witness:
  "\<not> mutex_' (Run (holding [0 \<mapsto> entry 0 1 ''x''] 1 0)) \<and>
   DoPullLogs None (Run (holding [0 \<mapsto> entry 0 1 ''x''] 1 0)) =
     Inr ((Run (holding [0 \<mapsto> entry 0 1 ''x''] 1 0))\<lparr>is_running_' := False\<rparr>) \<and>
   IsRunning ((Run (holding [0 \<mapsto> entry 0 1 ''x''] 1 0))\<lparr>is_running_' := False\<rparr>) \<and>
   DoPullLogs (Some (RpcClient 7)) (Run (holding [0 \<mapsto> entry 0 1 ''x''] 1 0)) =
     Inr ((Run (holding [0 \<mapsto> entry 0 1 ''x''] 1 0))
            \<lparr>async_calls := [AsyncCall (RpcClient 7) REQUEST_PULL_LOGS ''node-1'' 1]\<rparr>)"
proof -
  have free: "\<not> mutex_' (Run (holding [0 \<mapsto> entry 0 1 ''x''] 1 0))"
    by (simp add: Run_def holding_def fresh_def new_NonLeaderLogManager_def)
  from DoPullLogs_effect [OF free, of "RpcClient 7"] free show ?thesis
    by (simp add: Run_def IsRunning_def holding_def fresh_def new_NonLeaderLogManager_def)
qed

section \<open>Where the code departs from the specification\<close>

text \<open>Whatever cursor and committed index the header gives a new manager, the
  healthy append returns and the applier has received nothing.\<close>

lemma new_manager_push_applies_nothing:
  "\<exists>s'. Push (new_NonLeaderLogManager node next_index0 committed_log_index0) 0 1 (entry 0 1 ''x'') = Inr s' \<and>
        fsm_OnApply s' = []"
proof -
  let ?s = "new_NonLeaderLogManager node next_index0 committed_log_index0"
  have "\<exists>s'. Push ?s 0 1 (entry 0 1 ''x'') = Inr s'"
    by (rule Push_returns) (simp_all add: entry_def INT64_MAX_def new_NonLeaderLogManager_def)
  then obtain s' where run: "Push ?s 0 1 (entry 0 1 ''x'') = Inr s'" ..
  from Push_fsm [OF run] have "fsm_OnApply s' = []"
    by (simp add: new_NonLeaderLogManager_def)
  with run show ?thesis by blast
qed

text \<open>
  C1: the specification has \<open>CommitLogs(c)\<close>, for \<open>c\<close> above the committed index, hand
  every entry above the old committed index up to \<open>c\<close> to the applier once, in order;
  pushing index 0, term 1, payload "x" with committed index 0 into a fresh manager should
  make the applier receive "x". In the code the loop of lines 90-94 starts at
  \<open>committed_log_index + 1\<close> (line 88 takes the new index, not the old one) and so never
  runs: after that push the committed index has moved from \<open>- 1\<close> to \<open>0\<close> and the
  applier has received nothing; and with indices 0 and 1 stored and nothing committed,
  \<open>CommitLogs(1)\<close> commits both and applies neither.
\<close>

theorem healthy_append_applies_nothing:
  "Push fresh 0 1 (entry 0 1 ''x'') = Inr (holding [0 \<mapsto> entry 0 1 ''x''] 1 0) \<and>
   committed_log_index_' fresh = - 1 \<and>
   committed_log_index_' (holding [0 \<mapsto> entry 0 1 ''x''] 1 0) = 0 \<and>
   fsm_OnApply (holding [0 \<mapsto> entry 0 1 ''x''] 1 0) = [] \<and>
   CommitLogs (holding [0 \<mapsto> entry 0 1 ''x'', 1 \<mapsto> entry 1 1 ''y''] 2 (- 1)) 1 =
     Inr (holding [0 \<mapsto> entry 0 1 ''x'', 1 \<mapsto> entry 1 1 ''y''] 2 1) \<and>
   fsm_OnApply (holding [0 \<mapsto> entry 0 1 ''x'', 1 \<mapsto> entry 1 1 ''y''] 2 1) = []"
  by (simp add: eval_defs)

text \<open>
  C2: the specification has a push whose predecessor is absent (or has another term)
  leave \<open>next_index\<close> at \<open>log_index - 1\<close>. With only index 0 (term 1) stored, pushing
  index 2, term 1, previous term 1 does store the entry at index 2, but \<open>next_index\<close> is
  3 when \<open>Push\<close> returns, not 1: line 59 assigns 1 and lines 78-80 then replace it.
\<close>

theorem gap_push_next_index:
  "lacks_pre_log 1 (entry 2 1 ''z'') (holding [0 \<mapsto> entry 0 1 ''x''] 1 0) \<and>
   Push (holding [0 \<mapsto> entry 0 1 ''x''] 1 0) 0 1 (entry 2 1 ''z'') =
     Inr (holding [0 \<mapsto> entry 0 1 ''x'', 2 \<mapsto> entry 2 1 ''z''] 3 0) \<and>
   next_index_' (holding [0 \<mapsto> entry 0 1 ''x'', 2 \<mapsto> entry 2 1 ''z''] 3 0) = 3 \<and>
   all_log_entries_' (holding [0 \<mapsto> entry 0 1 ''x'', 2 \<mapsto> entry 2 1 ''z''] 3 0) 2 =
     Some (entry 2 1 ''z'')"
  by (simp add: eval_defs)

text \<open>
  C5: the specification has \<open>CommitLogs(c)\<close> abort when an index above the old committed
  index and at most \<open>c\<close> has no stored entry. On a fresh manager, which stores nothing,
  \<open>CommitLogs(5)\<close> returns normally with the committed index at 5: the check of line 92
  sits in the loop that never runs.
\<close>

theorem commit_missing_entries_returns:
  "all_log_entries_' fresh 0 = None \<and>
   committed_log_index_' fresh = - 1 \<and>
   CommitLogs fresh 5 = Inr (fresh\<lparr>committed_log_index_' := 5\<rparr>)"
  by (simp add: eval_defs)

text \<open>
  C8: the specification has \<open>Push\<close> and \<open>DoPullLogs\<close> run under one exclusive lock.
  \<open>DoPullLogs\<close> takes \<open>mutex_\<close>; \<open>Push\<close> does not. In a state where the mutex is held
  (a \<open>DoPullLogs\<close> is in progress), a second \<open>DoPullLogs\<close> cannot proceed, while \<open>Push\<close>
  runs to its end and writes the log store and \<open>next_index\<close>.
\<close>

theorem Push_ignores_mutex:
  "mutex_' (fresh\<lparr>mutex_' := True\<rparr>) \<and>
   DoPullLogs (Some (RpcClient 7)) (fresh\<lparr>mutex_' := True\<rparr>) = Inl MutexBusy \<and>
   Push (fresh\<lparr>mutex_' := True\<rparr>) 0 1 (entry 0 1 ''x'') =
     Inr ((holding [0 \<mapsto> entry 0 1 ''x''] 1 0)\<lparr>mutex_' := True\<rparr>)"
  by (simp add: eval_defs DoPullLogs_def)

end
